theory Spec2Isabelle
  imports Main "HOL-Library.Word" "HOL-Library.Multiset"
begin

unbundle bit_operations_syntax

section \<open>The xtouch test helper (tests/xtouch.c)\<close>

subsection \<open>Platform constants\<close>

text \<open>
  The values of the constants that \<open>xtouch.c\<close> takes from the system headers
  (\<open>errno.h\<close>, \<open>fcntl.h\<close>, \<open>sys/stat.h\<close>, \<open>stdlib.h\<close>) are those of Linux.
  The general theorems below do not depend on these values.
\<close>

type_synonym mode_t = "32 word"

definition ENOENT :: nat where "ENOENT = 2"
definition EEXIST :: nat where "EEXIST = 17"

definition AT_FDCWD :: int where "AT_FDCWD = -100"
definition AT_SYMLINK_NOFOLLOW :: int where "AT_SYMLINK_NOFOLLOW = 256"

definition O_WRONLY :: "32 word" where "O_WRONLY = 1"
definition O_CREAT :: "32 word" where "O_CREAT = 64"

definition UTIME_OMIT :: int where "UTIME_OMIT = 1073741822"

definition EXIT_SUCCESS :: int where "EXIT_SUCCESS = 0"
definition EXIT_FAILURE :: int where "EXIT_FAILURE = 1"

definition LONG_MAX :: int where "LONG_MAX = 2 ^ 63 - 1"
definition LONG_MIN :: int where "LONG_MIN = - (2 ^ 63)"

subsection \<open>Parsed arguments\<close>

text \<open>The simple flags of \<open>struct args\<close>: \<open>-c\<close>, \<open>-h\<close> and \<open>-p\<close>.\<close>

definition NO_CREATE :: "32 word" where "NO_CREATE = push_bit 0 1"
definition NO_FOLLOW :: "32 word" where "NO_FOLLOW = push_bit 1 1"
definition CREATE_PARENTS :: "32 word" where "CREATE_PARENTS = push_bit 2 1"

record timespec =
  tv_sec :: int
  tv_nsec :: int

record args =
  flags :: "32 word"
  times :: "timespec \<times> timespec"
  fmode :: mode_t
  dmode :: mode_t
  pmode :: mode_t

subsection \<open>The operating system\<close>

text \<open>
  Every call that leaves \<open>xtouch.c\<close> is recorded as a value of \<open>call\<close>. The
  helpers \<open>xclose\<close> and \<open>close_quietly\<close> of \<open>bfstd.c\<close> and \<open>strdup\<close> are treated
  like system calls: what they do is decided by the environment.
\<close>

datatype call =
    Umask mode_t
  | Utimensat int string "timespec \<times> timespec" int
  | Mkdir string mode_t
  | Open string "32 word" mode_t
  | Futimens int "timespec \<times> timespec"
  | Xclose int
  | Close_quietly int
  | Strdup string
  | Fstatat int string int
  | Xgetdate string
  | Xgettime

text \<open>
  The environment is a parameter: a world of any type \<open>'w\<close> and, for each call, the
  reply and the next world. \<open>Inl e\<close> is a failure that sets \<open>errno\<close> to \<open>e\<close> (the C
  function returns \<open>-1\<close>, or \<open>NULL\<close>); \<open>Inr v\<close> is the value returned otherwise.
  \<open>fstatat\<close> replies with the access and modification times of the file;
  \<open>xgetdate\<close> and \<open>xgettime\<close> (of \<open>xtime.c\<close>) reply with one time.
\<close>

record 'w os =
  syscall :: "'w \<Rightarrow> call \<Rightarrow> (nat + int) \<times> 'w"
  fstatat :: "'w \<Rightarrow> string \<Rightarrow> int \<Rightarrow> (nat + timespec \<times> timespec) \<times> 'w"
  xgetdate :: "'w \<Rightarrow> string \<Rightarrow> (nat + timespec) \<times> 'w"
  xgettime :: "'w \<Rightarrow> (nat + timespec) \<times> 'w"

text \<open>Diagnostics written to \<open>stderr\<close>; where the C prints \<open>strerror(errno)\<close> the
  value of \<open>errno\<close> is kept.\<close>

datatype diag =
    Missing_argument char
  | Unrecognized_option char
  | Invalid_mode string
  | Reference_failed string nat
  | Parsing_time_failed string nat
  | Xgettime_failed nat
  | No_files
  | Touch_failed string nat

text \<open>The state of the process: the world, \<open>errno\<close>, the calls made so far and
  what was written to \<open>stderr\<close>.\<close>

record 'w proc =
  world :: 'w
  errno :: nat
  trace :: "call list"
  stderr :: "diag list"

definition sys :: "'w os \<Rightarrow> call \<Rightarrow> 'w proc \<Rightarrow> int \<times> 'w proc" where
  "sys os c s =
     (case syscall os (world s) c of
        (Inl e, w) \<Rightarrow> (-1, s\<lparr>world := w, errno := e, trace := trace s @ [c]\<rparr>)
      | (Inr v, w) \<Rightarrow> (v, s\<lparr>world := w, trace := trace s @ [c]\<rparr>))"

text \<open>\<open>strdup\<close> returns a pointer: only whether it is \<open>NULL\<close> matters.\<close>

definition strdup :: "'w os \<Rightarrow> string \<Rightarrow> 'w proc \<Rightarrow> bool \<times> 'w proc" where
  "strdup os path s =
     (case syscall os (world s) (Strdup path) of
        (Inl e, w) \<Rightarrow> (False, s\<lparr>world := w, errno := e, trace := trace s @ [Strdup path]\<rparr>)
      | (Inr v, w) \<Rightarrow> (True, s\<lparr>world := w, trace := trace s @ [Strdup path]\<rparr>))"

definition xclose :: "'w os \<Rightarrow> int \<Rightarrow> 'w proc \<Rightarrow> int \<times> 'w proc" where
  "xclose os fd s = sys os (Xclose fd) s"

definition close_quietly :: "'w os \<Rightarrow> int \<Rightarrow> 'w proc \<Rightarrow> 'w proc" where
  "close_quietly os fd s = snd (sys os (Close_quietly fd) s)"

subsection \<open>at_flags\<close>

definition at_flags :: "args \<Rightarrow> int" where
  "at_flags a = (if flags a AND NO_FOLLOW \<noteq> 0 then AT_SYMLINK_NOFOLLOW else 0)"

subsection \<open>mkdirs\<close>

text \<open>
  \<open>strspn(s, "/")\<close> and \<open>strcspn(s, "/")\<close>: the length of the longest prefix of
  slashes, and of characters other than a slash.
\<close>

definition strspn_slash :: "string \<Rightarrow> nat" where
  "strspn_slash s = length (takeWhile (\<lambda>c. c = CHR ''/'') s)"

definition strcspn_slash :: "string \<Rightarrow> nat" where
  "strcspn_slash s = length (takeWhile (\<lambda>c. c \<noteq> CHR ''/'') s)"

lemma strspn_slash_le: "strspn_slash s \<le> length s"
  by (simp add: strspn_slash_def length_takeWhile_le)

lemma strcspn_slash_le: "strcspn_slash s \<le> length s"
  by (simp add: strcspn_slash_def length_takeWhile_le)

lemma strcspn_slash_stop:
  "strcspn_slash s < length s \<Longrightarrow> s ! strcspn_slash s = CHR ''/''"
  unfolding strcspn_slash_def
  using nth_length_takeWhile [of "\<lambda>c. c \<noteq> CHR ''/''" s] by simp

lemma strspn_slash_pos: "s \<noteq> [] \<Longrightarrow> hd s = CHR ''/'' \<Longrightarrow> 0 < strspn_slash s"
  by (cases s) (simp_all add: strspn_slash_def)

text \<open>
  The loop of \<open>mkdirs\<close>. The pointers \<open>cur\<close> and \<open>next\<close> are offsets into \<open>copy\<close>;
  \<open>*next\<close> is the terminator exactly when nothing of the string is left at \<open>next\<close>.
  Between \<open>*cur = '\0'\<close> and \<open>*cur = '/'\<close> the buffer reads as its first \<open>cur\<close>
  characters.
\<close>

function mkdirs_loop :: "'w os \<Rightarrow> string \<Rightarrow> mode_t \<Rightarrow> nat \<Rightarrow> 'w proc \<Rightarrow> int \<times> 'w proc" where
  "mkdirs_loop os copy mode cur s =
     (let cur1 = cur + strcspn_slash (drop cur copy);
          next = cur1 + strspn_slash (drop cur1 copy)
      in if drop next copy = [] then (0, s)
         else
           (case sys os (Mkdir (take cur1 copy) mode) s of
              (r, s1) \<Rightarrow>
                if r \<noteq> 0 \<and> errno s1 \<noteq> EEXIST then (-1, s1)
                else mkdirs_loop os copy mode next s1))"
  by pat_completeness auto

lemma mkdirs_loop_advance:
  assumes "drop (cur + strcspn_slash (drop cur copy)
             + strspn_slash (drop (cur + strcspn_slash (drop cur copy)) copy)) copy \<noteq> []"
  shows "cur < cur + strcspn_slash (drop cur copy)
             + strspn_slash (drop (cur + strcspn_slash (drop cur copy)) copy)"
proof -
  let ?c1 = "cur + strcspn_slash (drop cur copy)"
  let ?n = "?c1 + strspn_slash (drop ?c1 copy)"
  from assms have n: "?n < length copy" by simp
  then have c1: "?c1 < length copy" by simp
  then have "strcspn_slash (drop cur copy) < length (drop cur copy)" by simp
  then have "drop cur copy ! strcspn_slash (drop cur copy) = CHR ''/''"
    by (rule strcspn_slash_stop)
  with c1 have "copy ! ?c1 = CHR ''/''" by simp
  with c1 have "hd (drop ?c1 copy) = CHR ''/''" by (simp add: hd_drop_conv_nth)
  moreover from c1 have "drop ?c1 copy \<noteq> []" by simp
  ultimately have "0 < strspn_slash (drop ?c1 copy)" by (simp add: strspn_slash_pos)
  then show ?thesis by simp
qed

termination mkdirs_loop
proof (relation "measure (\<lambda>(os, copy, mode, cur, s). length copy - cur)", goal_cases)
  case 1
  show ?case by simp
next
  case (2 os copy mode cur s cur1 nxt r s1)
  from 2(3) have ne: "drop nxt copy \<noteq> []" .
  then have lt: "nxt < length copy" by simp
  from ne have "cur < nxt" unfolding 2(1) 2(2) by (rule mkdirs_loop_advance)
  with lt show ?case by simp
qed

declare mkdirs_loop.simps [simp del]

definition mkdirs :: "'w os \<Rightarrow> string \<Rightarrow> mode_t \<Rightarrow> 'w proc \<Rightarrow> int \<times> 'w proc" where
  "mkdirs os path mode s =
     (case strdup os path s of
        (False, s0) \<Rightarrow> (-1, s0)
      | (True, s0) \<Rightarrow> mkdirs_loop os path mode (strspn_slash path) s0)"

subsection \<open>xtouch\<close>

definition xtouch :: "'w os \<Rightarrow> args \<Rightarrow> string \<Rightarrow> 'w proc \<Rightarrow> int \<times> 'w proc" where
  "xtouch os a path s =
     (case sys os (Utimensat AT_FDCWD path (times a) (at_flags a)) s of
        (ret, s1) \<Rightarrow>
          if ret = 0 \<or> errno s1 \<noteq> ENOENT then (ret, s1)
          else if flags a AND NO_CREATE \<noteq> 0 then (0, s1)
          else
            (case (if flags a AND CREATE_PARENTS \<noteq> 0 then mkdirs os path (pmode a) s1
                   else (0, s1)) of
               (mk, s2) \<Rightarrow>
                 if mk \<noteq> 0 then (-1, s2)
                 else if 0 < length path \<and> path ! (length path - 1) = CHR ''/'' then
                   (case sys os (Mkdir path (dmode a)) s2 of
                      (r, s3) \<Rightarrow>
                        if r \<noteq> 0 then (-1, s3)
                        else sys os (Utimensat AT_FDCWD path (times a) (at_flags a)) s3)
                 else
                   (case sys os (Open path (O_WRONLY OR O_CREAT) (fmode a)) s2 of
                      (fd, s3) \<Rightarrow>
                        if fd < 0 then (-1, s3)
                        else
                          (case sys os (Futimens fd (times a)) s3 of
                             (r, s4) \<Rightarrow>
                               if r \<noteq> 0 then (-1, close_quietly os fd s4)
                               else xclose os fd s4))))"

subsection \<open>strtol in base 8\<close>

text \<open>
  \<open>strtol(nptr, &end, 8)\<close> is the C library's; it is written out as the C standard
  defines it, in the C locale: white space is skipped, one sign is optional, the
  longest run of octal digits is the number, and \<open>end\<close> is what follows it. Without
  a digit nothing is converted and \<open>end\<close> is \<open>nptr\<close>. A value out of the range of
  \<open>long\<close> (64 bits) is replaced by \<open>LONG_MAX\<close> or \<open>LONG_MIN\<close>, with \<open>ERANGE\<close>.
  The result is the value, \<open>end\<close>, and whether \<open>ERANGE\<close> was set.
\<close>

definition isspace :: "char \<Rightarrow> bool" where
  "isspace c = (c = CHR 0x20 \<or> c = CHR 0x09 \<or> c = CHR 0x0A \<or> c = CHR 0x0B
                \<or> c = CHR 0x0C \<or> c = CHR 0x0D)"

definition is_odigit :: "char \<Rightarrow> bool" where
  "is_odigit c = (48 \<le> (of_char c :: nat) \<and> (of_char c :: nat) \<le> 55)"

definition digit_val :: "char \<Rightarrow> int" where
  "digit_val c = int (of_char c) - 48"

fun octal_val :: "int \<Rightarrow> string \<Rightarrow> int" where
  "octal_val acc [] = acc"
| "octal_val acc (c # cs) = octal_val (acc * 8 + digit_val c) cs"

definition strtol8 :: "string \<Rightarrow> int \<times> string \<times> bool" where
  "strtol8 nptr =
     (let s1 = dropWhile isspace nptr;
          neg = (s1 \<noteq> [] \<and> hd s1 = CHR ''-'');
          s2 = (if s1 \<noteq> [] \<and> (hd s1 = CHR ''-'' \<or> hd s1 = CHR ''+'') then tl s1 else s1);
          ds = takeWhile is_odigit s2;
          v = (if neg then - octal_val 0 ds else octal_val 0 ds)
      in if ds = [] then (0, nptr, False)
         else if v > LONG_MAX then (LONG_MAX, dropWhile is_odigit s2, True)
         else if v < LONG_MIN then (LONG_MIN, dropWhile is_odigit s2, True)
         else (v, dropWhile is_odigit s2, False))"

subsection \<open>main\<close>

text \<open>
  \<open>getopt\<close> is the C library's: each of its returns before \<open>-1\<close> is an input, with
  the values of \<open>optarg\<close> and \<open>optopt\<close> at that return. \<open>files\<close> below is
  \<open>argv[optind..argc)\<close> after the last return.
\<close>

record getopt_ret =
  opt_c :: char
  optarg :: string
  optopt :: char

text \<open>The locals of \<open>main\<close> that the option loop assigns.\<close>

record opts =
  o_args :: args
  o_atime :: bool
  o_mtime :: bool
  o_darg :: "string option"
  o_marg :: "string option"
  o_rarg :: "string option"

definition main_init :: "mode_t \<Rightarrow> opts" where
  "main_init um =
     \<lparr>o_args = \<lparr>flags = 0,
                times = (\<lparr>tv_sec = 0, tv_nsec = UTIME_OMIT\<rparr>, \<lparr>tv_sec = 0, tv_nsec = UTIME_OMIT\<rparr>),
                fmode = 438 AND NOT um,
                dmode = 511 AND NOT um,
                pmode = 511 AND NOT um\<rparr>,
      o_atime = False, o_mtime = False, o_darg = None, o_marg = None, o_rarg = None\<rparr>"

definition or_flag :: "32 word \<Rightarrow> opts \<Rightarrow> opts" where
  "or_flag f ot = ot\<lparr>o_args := (o_args ot)\<lparr>flags := flags (o_args ot) OR f\<rparr>\<rparr>"

fun getopt_loop :: "getopt_ret list \<Rightarrow> opts \<Rightarrow> diag + opts" where
  "getopt_loop [] ot = Inr ot"
| "getopt_loop (g # gs) ot =
     (if opt_c g = CHR ''M'' then getopt_loop gs (ot\<lparr>o_marg := Some (optarg g)\<rparr>)
      else if opt_c g = CHR ''a'' then getopt_loop gs (ot\<lparr>o_atime := True\<rparr>)
      else if opt_c g = CHR ''c'' then getopt_loop gs (or_flag NO_CREATE ot)
      else if opt_c g = CHR ''d'' \<or> opt_c g = CHR ''t'' then
        getopt_loop gs (ot\<lparr>o_darg := Some (optarg g)\<rparr>)
      else if opt_c g = CHR ''h'' then getopt_loop gs (or_flag NO_FOLLOW ot)
      else if opt_c g = CHR ''m'' then getopt_loop gs (ot\<lparr>o_mtime := True\<rparr>)
      else if opt_c g = CHR ''p'' then getopt_loop gs (or_flag CREATE_PARENTS ot)
      else if opt_c g = CHR ''r'' then getopt_loop gs (ot\<lparr>o_rarg := Some (optarg g)\<rparr>)
      else if opt_c g = CHR '':'' then Inl (Missing_argument (optopt g))
      else if opt_c g = CHR ''?'' then Inl (Unrecognized_option (optopt g))
      else getopt_loop gs ot)"

text \<open>The block \<open>if (marg) { ... }\<close>: \<open>01000\<close> is 512.\<close>

definition set_mode :: "string option \<Rightarrow> args \<Rightarrow> diag + args" where
  "set_mode marg a =
     (case marg of
        None \<Rightarrow> Inr a
      | Some m \<Rightarrow>
          (case strtol8 m of
             (mode, end, erange) \<Rightarrow>
               if m \<noteq> [] \<and> end = [] \<and> mode \<ge> 0 \<and> mode < 512
               then Inr (a\<lparr>fmode := word_of_int mode, dmode := word_of_int mode\<rparr>)
               else Inl (Invalid_mode m)))"

text \<open>The three sources of the timestamps: \<open>-r\<close>, \<open>-d\<close>/\<open>-t\<close>, or the clock.\<close>

definition get_times ::
  "'w os \<Rightarrow> opts \<Rightarrow> args \<Rightarrow> 'w proc \<Rightarrow> (diag + timespec \<times> timespec) \<times> 'w proc" where
  "get_times os ot a s =
     (case o_rarg ot of
        Some r \<Rightarrow>
          (case fstatat os (world s) r (at_flags a) of
             (Inl e, w) \<Rightarrow>
               (Inl (Reference_failed r e),
                s\<lparr>world := w, errno := e, trace := trace s @ [Fstatat AT_FDCWD r (at_flags a)]\<rparr>)
           | (Inr buf, w) \<Rightarrow>
               (Inr buf, s\<lparr>world := w, trace := trace s @ [Fstatat AT_FDCWD r (at_flags a)]\<rparr>))
      | None \<Rightarrow>
          (case o_darg ot of
             Some d \<Rightarrow>
               (case xgetdate os (world s) d of
                  (Inl e, w) \<Rightarrow>
                    (Inl (Parsing_time_failed d e),
                     s\<lparr>world := w, errno := e, trace := trace s @ [Xgetdate d]\<rparr>)
                | (Inr t, w) \<Rightarrow> (Inr (t, t), s\<lparr>world := w, trace := trace s @ [Xgetdate d]\<rparr>))
           | None \<Rightarrow>
               (case xgettime os (world s) of
                  (Inl e, w) \<Rightarrow>
                    (Inl (Xgettime_failed e),
                     s\<lparr>world := w, errno := e, trace := trace s @ [Xgettime]\<rparr>)
                | (Inr t, w) \<Rightarrow> (Inr (t, t), s\<lparr>world := w, trace := trace s @ [Xgettime]\<rparr>))))"

definition put_times :: "opts \<Rightarrow> timespec \<times> timespec \<Rightarrow> args \<Rightarrow> args" where
  "put_times ot ts a =
     (let both = (\<not> o_atime ot \<and> \<not> o_mtime ot);
          atime = (both \<or> o_atime ot);
          mtime = (both \<or> o_mtime ot);
          a1 = (if atime then a\<lparr>times := (fst ts, snd (times a))\<rparr> else a)
      in if mtime then a1\<lparr>times := (fst (times a1), snd ts)\<rparr> else a1)"

definition fail :: "diag \<Rightarrow> 'w proc \<Rightarrow> 'w proc" where
  "fail d s = s\<lparr>stderr := stderr s @ [d]\<rparr>"

text \<open>\<open>main\<close> up to the point where \<open>args\<close> is complete (before the check of
  \<open>optind\<close>): the arguments, or the diagnostic of the early \<open>return EXIT_FAILURE\<close>.\<close>

definition main_args :: "'w os \<Rightarrow> getopt_ret list \<Rightarrow> 'w proc \<Rightarrow> (diag + args) \<times> 'w proc" where
  "main_args os gs s =
     (case sys os (Umask 0) s of
        (um, s0) \<Rightarrow>
          (case getopt_loop gs (main_init (word_of_int um)) of
             Inl d \<Rightarrow> (Inl d, s0)
           | Inr ot \<Rightarrow>
               (case set_mode (o_marg ot) (o_args ot) of
                  Inl d \<Rightarrow> (Inl d, s0)
                | Inr a \<Rightarrow>
                    (case get_times os ot a s0 of
                       (Inl d, s1) \<Rightarrow> (Inl d, s1)
                     | (Inr ts, s1) \<Rightarrow> (Inr (put_times ot ts a), s1)))))"

text \<open>The last loop of \<open>main\<close>, over the paths.\<close>

fun touch_paths :: "'w os \<Rightarrow> args \<Rightarrow> string list \<Rightarrow> int \<Rightarrow> 'w proc \<Rightarrow> int \<times> 'w proc" where
  "touch_paths os a [] ret s = (ret, s)"
| "touch_paths os a (path # paths) ret s =
     (case xtouch os a path s of
        (r, s1) \<Rightarrow>
          if r \<noteq> 0 then touch_paths os a paths EXIT_FAILURE (fail (Touch_failed path (errno s1)) s1)
          else touch_paths os a paths ret s1)"

definition main :: "'w os \<Rightarrow> getopt_ret list \<Rightarrow> string list \<Rightarrow> 'w proc \<Rightarrow> int \<times> 'w proc" where
  "main os gs files s =
     (case main_args os gs s of
        (Inl d, s1) \<Rightarrow> (EXIT_FAILURE, fail d s1)
      | (Inr a, s1) \<Rightarrow>
          if files = [] then (EXIT_FAILURE, fail No_files s1)
          else touch_paths os a files EXIT_SUCCESS s1)"

subsection \<open>A sample environment\<close>

text \<open>
  A small world for concrete runs: the list of the paths that exist. \<open>utimensat\<close>
  fails with \<open>ENOENT\<close> on a path that is not there, \<open>mkdir\<close> and \<open>open\<close> add the
  path, the file descriptor is always 3 and the umask is \<open>022\<close>.
\<close>

definition demo_syscall :: "string list \<Rightarrow> call \<Rightarrow> (nat + int) \<times> string list" where
  "demo_syscall w c =
     (case c of
        Umask m \<Rightarrow> (Inr 18, w)
      | Utimensat d p ts f \<Rightarrow> if p \<in> set w then (Inr 0, w) else (Inl ENOENT, w)
      | Mkdir p m \<Rightarrow> if p \<in> set w then (Inl EEXIST, w) else (Inr 0, p # w)
      | Open p f m \<Rightarrow> (Inr 3, if p \<in> set w then w else p # w)
      | _ \<Rightarrow> (Inr 0, w))"

definition demo_time :: timespec where
  "demo_time = \<lparr>tv_sec = 1700000000, tv_nsec = 0\<rparr>"

definition demo_os :: "string list os" where
  "demo_os =
     \<lparr>syscall = demo_syscall,
      fstatat = (\<lambda>w p f. if p \<in> set w then (Inr (demo_time, demo_time), w) else (Inl ENOENT, w)),
      xgetdate = (\<lambda>w d. (Inr demo_time, w)),
      xgettime = (\<lambda>w. (Inr demo_time, w))\<rparr>"

definition demo_proc :: "string list \<Rightarrow> string list proc" where
  "demo_proc w = \<lparr>world = w, errno = 0, trace = [], stderr = []\<rparr>"

definition demo_opt :: "char \<Rightarrow> string \<Rightarrow> getopt_ret" where
  "demo_opt c arg = \<lparr>opt_c = c, optarg = arg, optopt = c\<rparr>"

definition demo_args :: "32 word \<Rightarrow> args" where
  "demo_args f =
     \<lparr>flags = f, times = (demo_time, demo_time), fmode = 420, dmode = 493, pmode = 493\<rparr>"

subsection \<open>Notions used to state the properties of xtouch\<close>







section \<open>The traversal engine and its queue of open requests\<close>

text \<open>
  The sources of the traversal engine (\<open>bftw\<close>) and of the I/O queue (\<open>ioq\<close>) are not
  among the files of this development; the definitions of this section are written
  from the specification of the engine. They cover the strategy \<open>bfs\<close> with a callback
  that always answers \<open>CONTINUE\<close>.
\<close>

subsection \<open>Files, entries and visits\<close>

text \<open>
  Modelled from the spec: the filesystem that the engine walks (the directory reader
  and the \<open>OPEN\<close> requests of the I/O queue are missing). A directory has a name, the
  error with which opening it fails, if it does, and the names that \<open>readdir\<close> yields,
  in that order.
\<close>

datatype node = File string | Dir string "nat option" "node list"

definition EACCES :: nat where "EACCES = 13"

text \<open>
  Modelled from the spec: the entry of the data model (\<open>bftw.h\<close> is missing), "parent
  pointer (or null for roots), base name, depth". The visit type and the error code
  belong to one visit of the entry, since a directory is visited more than once.
\<close>

datatype entry = Entry (e_parent: "entry option") (e_name: string) (e_depth: nat)

datatype vtype = Pre | Leaf | Post

record visit =
  v_entry :: entry
  v_type :: vtype
  v_error :: "nat option"

text \<open>
  Modelled from the spec: the subtree of the data model, "a directory plus its
  children-in-progress" (\<open>bftw.c\<close> is missing). The parent pointer is kept as the
  chain of the identifiers of the ancestors, nearest first. The sealed flag and the two
  counters, which the children of a subtree update through their parent pointer, are
  kept in a store, by identifier.
\<close>

record subtree =
  st_id :: nat
  st_entry :: entry
  st_node :: node
  st_chain :: "nat list"

record counters =
  c_entry :: entry
  c_sealed :: bool
  c_pending :: nat
  c_completed :: nat

text \<open>
  Modelled from the spec: the state of the engine, "a state machine over (frontier,
  in-flight, completions)". The frontier is a FIFO of subtrees. \<open>inflight\<close> are the
  \<open>OPEN\<close> requests that were issued and not yet drained, in the order of their
  sequence numbers, each with the flag that a worker has completed it. \<open>out\<close> are the
  invocations of the visit callback so far.
\<close>

record state =
  live :: "nat \<Rightarrow> counters option"
  next_id :: nat
  frontier :: "subtree list"
  inflight :: "(subtree \<times> bool) list"
  out :: "visit list"

subsection \<open>Discovering an entry\<close>

text \<open>
  Modelled from the spec: one invocation of the visit callback (the callback itself
  is outside the engine and always answers \<open>CONTINUE\<close> here), and the update of the
  counters of a subtree that is in the store.
\<close>

definition emit :: "visit \<Rightarrow> state \<Rightarrow> state" where
  "emit v s = s\<lparr>out := out s @ [v]\<rparr>"

definition upd_live :: "nat \<Rightarrow> (counters \<Rightarrow> counters) \<Rightarrow> state \<Rightarrow> state" where
  "upd_live i f s = (case live s i of None \<Rightarrow> s | Some c \<Rightarrow> s\<lparr>live := (live s)(i \<mapsto> f c)\<rparr>)"

text \<open>
  Modelled from the spec: "a subtree is created when an entry identified as a
  directory is selected for descent"; it joins the frontier, and it is one more
  pending child of its parent.
\<close>

definition child_added :: "nat list \<Rightarrow> state \<Rightarrow> state" where
  "child_added chain s =
     (case chain of [] \<Rightarrow> s
      | p # up \<Rightarrow> upd_live p (\<lambda>c. c\<lparr>c_pending := Suc (c_pending c)\<rparr>) s)"

definition enqueue :: "entry \<Rightarrow> node \<Rightarrow> nat list \<Rightarrow> state \<Rightarrow> state" where
  "enqueue e nd chain s =
     s\<lparr>live := (live s)(next_id s \<mapsto>
                 \<lparr>c_entry = e, c_sealed = False, c_pending = 0, c_completed = 0\<rparr>),
       next_id := Suc (next_id s),
       frontier := frontier s @ [\<lparr>st_id = next_id s, st_entry = e, st_node = nd, st_chain = chain\<rparr>]\<rparr>"

text \<open>
  Modelled from the spec: "for each name returned, construct a child entry, fire the
  pre-order callback (its visit type depends on whether it is a directory), and if it
  is a directory enqueue an \<open>OPEN\<close> for it". The same is done for each root.
\<close>

fun first_visit :: "entry option \<Rightarrow> nat \<Rightarrow> node \<Rightarrow> visit" where
  "first_visit par d (File nm) = \<lparr>v_entry = Entry par nm d, v_type = Leaf, v_error = None\<rparr>"
| "first_visit par d (Dir nm err kids) = \<lparr>v_entry = Entry par nm d, v_type = Pre, v_error = None\<rparr>"

fun discover :: "entry option \<Rightarrow> nat \<Rightarrow> nat list \<Rightarrow> node \<Rightarrow> state \<Rightarrow> state" where
  "discover par d chain (File nm) s = emit (first_visit par d (File nm)) s"
| "discover par d chain (Dir nm err kids) s =
     enqueue (Entry par nm d) (Dir nm err kids) chain
       (child_added chain (emit (first_visit par d (Dir nm err kids)) s))"

text \<open>
  Modelled from the spec: step 1 of the algorithm, "for each root path ... creating a
  pending subtree"; root entries have depth 0 and no parent.
\<close>

definition init :: "node list \<Rightarrow> state" where
  "init roots =
     fold (discover None 0 []) roots
       \<lparr>live = Map.empty, next_id = 0, frontier = [], inflight = [], out = []\<rparr>"

subsection \<open>Draining the completion of an open request\<close>

text \<open>
  Modelled from the spec: reading the directory stream of the subtree \<open>q\<close>, whose
  names are \<open>kids\<close>; "when \<open>readdir\<close> returns EOF, seal the subtree"; and the
  completion of a child, which "decrements the parent's pending children".
\<close>

definition read_dir :: "subtree \<Rightarrow> node list \<Rightarrow> state \<Rightarrow> state" where
  "read_dir q kids s =
     fold (discover (Some (st_entry q)) (Suc (e_depth (st_entry q))) (st_id q # st_chain q)) kids s"

definition seal :: "nat \<Rightarrow> state \<Rightarrow> state" where
  "seal i s = upd_live i (\<lambda>c. c\<lparr>c_sealed := True\<rparr>) s"

definition child_completed :: "nat list \<Rightarrow> state \<Rightarrow> state" where
  "child_completed up s =
     (case up of [] \<Rightarrow> s
      | p # pp \<Rightarrow> upd_live p (\<lambda>c. c\<lparr>c_pending := c_pending c - 1,
                                       c_completed := Suc (c_completed c)\<rparr>) s)"

text \<open>
  Modelled from the spec: the end of a subtree. "A subtree is destroyed only when
  sealed and all children complete"; "if post-order visits are requested, the
  post-order callback fires" then; "a subtree's destructor decrements the parent's
  pending children and may cascade". The argument is the identifier of the subtree
  followed by its chain.
\<close>

fun release :: "bool \<Rightarrow> nat list \<Rightarrow> state \<Rightarrow> state" where
  "release post [] s = s"
| "release post (i # up) s =
     (case live s i of
        None \<Rightarrow> s
      | Some c \<Rightarrow>
          if c_sealed c \<and> c_pending c = 0 then
            release post up
              (child_completed up
                 ((if post then emit \<lparr>v_entry = c_entry c, v_type = Post, v_error = None\<rparr> s
                   else s)\<lparr>live := (live s)(i := None)\<rparr>))
          else s)"

text \<open>
  Modelled from the spec: steps 3 and 4 of the algorithm, for the completion of the
  \<open>OPEN\<close> of the subtree \<open>q\<close>. If the directory was opened its names are read and the
  subtree is sealed at the end of the stream. If opening failed the engine "emits the
  directory entry with its error and no children". \<open>post\<close> is the flag \<open>POST_ORDER\<close>.
\<close>

definition visit_open :: "bool \<Rightarrow> subtree \<Rightarrow> state \<Rightarrow> state" where
  "visit_open post q s =
     (case st_node q of
        File nm \<Rightarrow> s
      | Dir nm None kids \<Rightarrow>
          release post (st_id q # st_chain q) (seal (st_id q) (read_dir q kids s))
      | Dir nm (Some e) kids \<Rightarrow>
          release post (st_id q # st_chain q)
            (seal (st_id q) (emit \<lparr>v_entry = st_entry q, v_type = Pre, v_error = Some e\<rparr> s)))"

subsection \<open>The steps of the engine and of the workers\<close>

text \<open>
  Modelled from the spec: the backpressure rule, "the engine caps in-flight \<open>OPEN\<close>
  requests at 2 x nworkers + 1".
\<close>

definition open_cap :: "nat \<Rightarrow> nat" where
  "open_cap nworkers = 2 * nworkers + 1"

text \<open>
  Modelled from the spec: the completions are visited in the order in which the
  requests were issued; the completion at the head of \<open>inflight\<close> can be drained once
  a worker has completed it.
\<close>

definition visitable :: "state \<Rightarrow> bool" where
  "visitable s = (case inflight s of [] \<Rightarrow> False | (q, done) # rest \<Rightarrow> done)"

text \<open>
  Modelled from the spec: the worker loop, "repeatedly pop a request, perform its
  syscall, push a completion". With \<open>n\<close> workers the requests in execution are the
  first \<open>n\<close> that are not completed; any of them can complete next.
\<close>

definition running :: "nat \<Rightarrow> (subtree \<times> bool) list \<Rightarrow> nat \<Rightarrow> bool" where
  "running n rs i =
     (i < length rs \<and> \<not> snd (rs ! i) \<and> length (filter (\<lambda>r. \<not> snd r) (take i rs)) < n)"

text \<open>
  Modelled from the spec: step 2 of the algorithm, "if the consumer has pending
  completions it can visit in order, drain them; else if there is queue budget and
  frontier work, issue more requests; else block on the completion queue". An event
  is one action of the consumer (\<open>Issue\<close>, \<open>Visit\<close>) or the completion of the request
  at a position of \<open>inflight\<close> by a worker. An event that cannot happen in a state gives
  \<open>None\<close>.
\<close>

datatype event = Issue | Complete nat | Visit

fun step :: "nat \<Rightarrow> bool \<Rightarrow> event \<Rightarrow> state \<Rightarrow> state option" where
  "step n post Issue s =
     (case frontier s of
        [] \<Rightarrow> None
      | q # f \<Rightarrow>
          if visitable s \<or> open_cap n \<le> length (inflight s) then None
          else Some (s\<lparr>frontier := f, inflight := inflight s @ [(q, False)]\<rparr>))"
| "step n post (Complete i) s =
     (if running n (inflight s) i
      then Some (s\<lparr>inflight := (inflight s)[i := (fst (inflight s ! i), True)]\<rparr>)
      else None)"
| "step n post Visit s =
     (case inflight s of
        [] \<Rightarrow> None
      | (q, done) # rest \<Rightarrow>
          if done then Some (visit_open post q (s\<lparr>inflight := rest\<rparr>)) else None)"

text \<open>
  Modelled from the spec: the loop of the engine together with the workers. A schedule
  is a list of events; \<open>run\<close> follows it from a state.
\<close>

fun run :: "nat \<Rightarrow> bool \<Rightarrow> event list \<Rightarrow> state \<Rightarrow> state option" where
  "run n post [] s = Some s"
| "run n post (ev # evs) s =
     (case step n post ev s of None \<Rightarrow> None | Some s1 \<Rightarrow> run n post evs s1)"

text \<open>
  Modelled from the spec: step 5, the engine continues "until frontier, in-flight ops,
  and completion queue are all empty".
\<close>

definition final :: "state \<Rightarrow> bool" where
  "final s = (frontier s = [] \<and> inflight s = [])"

text \<open>
  Modelled from the spec: \<open>bftw(config, callback)\<close>, the traversal of the roots with
  \<open>n\<close> workers, here under a schedule.
\<close>

definition bftw :: "nat \<Rightarrow> bool \<Rightarrow> node list \<Rightarrow> event list \<Rightarrow> state option" where
  "bftw n post roots evs = run n post evs (init roots)"

subsection \<open>Notions used to state the properties of the engine\<close>

text \<open>
  The subtrees that reading the names \<open>kids\<close> adds to the frontier, the first with
  the identifier \<open>i\<close>.
\<close>

fun spawned :: "nat \<Rightarrow> entry option \<Rightarrow> nat \<Rightarrow> nat list \<Rightarrow> node list \<Rightarrow> subtree list" where
  "spawned i par d chain [] = []"
| "spawned i par d chain (File nm # kids) = spawned i par d chain kids"
| "spawned i par d chain (Dir nm err ks # kids) =
     \<lparr>st_id = i, st_entry = Entry par nm d, st_node = Dir nm err ks, st_chain = chain\<rparr>
       # spawned (Suc i) par d chain kids"

text \<open>The subtrees that wait for their visit, oldest first.\<close>

definition queue :: "state \<Rightarrow> subtree list" where
  "queue s = map fst (inflight s) @ frontier s"

text \<open>
  The visits, other than post-order visits, that the traversal of a file owes: the
  first visit of the file and, below a directory, the report of the error of opening
  it or else what its children owe.
\<close>

fun expected :: "entry option \<Rightarrow> nat \<Rightarrow> node \<Rightarrow> visit list" where
  "expected par d (File nm) = [first_visit par d (File nm)]"
| "expected par d (Dir nm err kids) =
     first_visit par d (Dir nm err kids) #
       (case err of
          Some e \<Rightarrow> [\<lparr>v_entry = Entry par nm d, v_type = Pre, v_error = Some e\<rparr>]
        | None \<Rightarrow> concat (map (expected (Some (Entry par nm d)) (Suc d)) kids))"

text \<open>
  What the visit of a waiting subtree \<open>q\<close> emits before any post-order visit, and
  the subtrees that it adds to the frontier, the first with the identifier \<open>i\<close>.
\<close>

definition opened :: "subtree \<Rightarrow> visit list" where
  "opened q =
     (case st_node q of
        File nm \<Rightarrow> []
      | Dir nm None kids \<Rightarrow>
          map (first_visit (Some (st_entry q)) (Suc (e_depth (st_entry q)))) kids
      | Dir nm (Some e) kids \<Rightarrow> [\<lparr>v_entry = st_entry q, v_type = Pre, v_error = Some e\<rparr>])"

definition children :: "nat \<Rightarrow> subtree \<Rightarrow> subtree list" where
  "children i q =
     (case st_node q of
        File nm \<Rightarrow> []
      | Dir nm None kids \<Rightarrow>
          spawned i (Some (st_entry q)) (Suc (e_depth (st_entry q))) (st_id q # st_chain q) kids
      | Dir nm (Some e) kids \<Rightarrow> [])"

text \<open>What is still owed below a subtree that waits for its visit.\<close>

definition owed :: "subtree \<Rightarrow> visit list" where
  "owed q =
     (case st_node q of
        File nm \<Rightarrow> []
      | Dir nm None kids \<Rightarrow>
          concat (map (expected (Some (st_entry q)) (Suc (e_depth (st_entry q)))) kids)
      | Dir nm (Some e) kids \<Rightarrow> [\<lparr>v_entry = st_entry q, v_type = Pre, v_error = Some e\<rparr>])"

text \<open>The depth invariant of an entry and of all its ancestors.\<close>

fun depth_ok :: "entry \<Rightarrow> bool" where
  "depth_ok (Entry None nm d) = (d = 0)"
| "depth_ok (Entry (Some p) nm d) = (d = Suc (e_depth p) \<and> depth_ok p)"

text \<open>The entries that the engine holds: those of the waiting subtrees and of the store.\<close>

definition live_entries :: "state \<Rightarrow> entry set" where
  "live_entries s = {c_entry c |i c. live s i = Some c}"

definition held :: "state \<Rightarrow> entry set" where
  "held s = st_entry ` set (queue s) \<union> live_entries s"




subsection \<open>The FD cache and the retry of an open request\<close>







subsection \<open>The I/O queue\<close>













text \<open>The visits other than post-order visits, and all that the roots owe.\<close>

definition nonpost :: "visit list \<Rightarrow> visit list" where
  "nonpost vs = filter (\<lambda>v. v_type v \<noteq> Post) vs"

definition total :: "node list \<Rightarrow> visit list" where
  "total roots = concat (map (expected None 0) roots)"

text \<open>
  \<open>accounted roots s\<close>: what was visited and what the waiting subtrees owe add up to
  what the roots owe; every entry that the engine holds, and every entry of a
  post-order visit, has had its first visit.
\<close>

definition accounted :: "node list \<Rightarrow> state \<Rightarrow> bool" where
  "accounted roots s =
     (mset (nonpost (out s)) + mset (concat (map owed (queue s))) = mset (total roots)
      \<and> held s \<subseteq> v_entry ` set (nonpost (out s))
      \<and> v_entry ` set (out s) \<subseteq> v_entry ` set (nonpost (out s)))"

text \<open>The first visit of each entry: neither a post-order visit nor the report of an error.\<close>

definition firsts :: "visit list \<Rightarrow> visit list" where
  "firsts vs = filter (\<lambda>v. v_type v \<noteq> Post \<and> v_error v = None) vs"




text \<open>
  Trees for concrete runs; in the second and the third a directory cannot be opened.
  A small filesystem for the retry: the world is the number of open descriptors, of
  which there can be three.
\<close>

definition demo_tree :: node where
  "demo_tree = Dir ''r'' None
     [Dir ''a'' None [File ''x'', File ''y''], Dir ''b'' None [File ''x'', File ''y'']]"

definition wide_tree :: node where
  "wide_tree = Dir ''r'' None
     [Dir ''a'' None [], Dir ''b'' None [], Dir ''c'' (Some EACCES) [File ''x''], Dir ''d'' None []]"






section \<open>Properties of xtouch\<close>

subsection \<open>System calls\<close>

lemma sys_Inl:
  "syscall os (world s) c = (Inl e, w) \<Longrightarrow>
   sys os c s = (-1, s\<lparr>world := w, errno := e, trace := trace s @ [c]\<rparr>)"
  by (simp add: sys_def)

lemma sys_Inr:
  "syscall os (world s) c = (Inr v, w) \<Longrightarrow>
   sys os c s = (v, s\<lparr>world := w, trace := trace s @ [c]\<rparr>)"
  by (simp add: sys_def)

lemma trace_sys: "trace (snd (sys os c s)) = trace s @ [c]"
  by (simp add: sys_def split: prod.splits sum.splits)

lemma stderr_sys: "stderr (snd (sys os c s)) = stderr s"
  by (simp add: sys_def split: prod.splits sum.splits)

lemma last_char_conv:
  "(0 < length path \<and> path ! (length path - 1) = c) = (path \<noteq> [] \<and> last path = c)"
  by (cases "path = []") (simp_all add: last_conv_nth)


subsection \<open>The mode option\<close>




















subsection \<open>The calls of mkdirs and xtouch\<close>











subsection \<open>The claims about xtouch\<close>

text \<open>
  Claim C8. When \<open>utimensat\<close> fails with \<open>ENOENT\<close>, \<open>NO_CREATE\<close> is unset and the
  creation of the parents (if \<open>-p\<close> asked for it) has returned 0, leaving the state
  \<open>s2\<close>: a path whose last character is a slash is created with
  \<open>mkdir(path, dmode)\<close>, and when that returns 0 its timestamps are set with
  \<open>utimensat\<close>, whose result is the result of \<open>xtouch\<close>; any other path is created
  with \<open>open(path, O_WRONLY | O_CREAT, fmode)\<close>, and when that returns a descriptor
  the timestamps are set with \<open>futimens\<close> on it, followed by \<open>xclose\<close> (or by
  \<open>close_quietly\<close> when \<open>futimens\<close> failed).
\<close>

theorem xtouch_creates:
  assumes enoent:
    "syscall os (world s) (Utimensat AT_FDCWD path (times a) (at_flags a)) = (Inl ENOENT, w)"
    and nc: "flags a AND NO_CREATE = 0"
    and parents:
      "(if flags a AND CREATE_PARENTS \<noteq> 0
        then mkdirs os path (pmode a)
               (s\<lparr>world := w, errno := ENOENT,
                  trace := trace s @ [Utimensat AT_FDCWD path (times a) (at_flags a)]\<rparr>)
        else (0, s\<lparr>world := w, errno := ENOENT,
                   trace := trace s @ [Utimensat AT_FDCWD path (times a) (at_flags a)]\<rparr>))
       = (0, s2)"
  shows "(path \<noteq> [] \<and> last path = CHR ''/'' \<longrightarrow>
           (\<forall>r s3. sys os (Mkdir path (dmode a)) s2 = (r, s3) \<longrightarrow>
              xtouch os a path s =
                (if r \<noteq> 0 then (-1, s3)
                 else sys os (Utimensat AT_FDCWD path (times a) (at_flags a)) s3))
           \<and> (\<forall>w3. syscall os (world s2) (Mkdir path (dmode a)) = (Inr 0, w3) \<longrightarrow>
                trace (snd (xtouch os a path s)) =
                  trace s2 @ [Mkdir path (dmode a),
                              Utimensat AT_FDCWD path (times a) (at_flags a)]))
         \<and> (\<not> (path \<noteq> [] \<and> last path = CHR ''/'') \<longrightarrow>
           (\<forall>fd s3 r s4.
              sys os (Open path (O_WRONLY OR O_CREAT) (fmode a)) s2 = (fd, s3) \<and>
              sys os (Futimens fd (times a)) s3 = (r, s4) \<longrightarrow>
              xtouch os a path s =
                (if fd < 0 then (-1, s3)
                 else if r \<noteq> 0 then (-1, close_quietly os fd s4)
                 else xclose os fd s4))
           \<and> (\<forall>fd w3. syscall os (world s2) (Open path (O_WRONLY OR O_CREAT) (fmode a)) = (Inr fd, w3)
                  \<and> 0 \<le> fd \<longrightarrow>
                (\<exists>c. (c = Xclose fd \<or> c = Close_quietly fd) \<and>
                  trace (snd (xtouch os a path s)) =
                    trace s2 @ [Open path (O_WRONLY OR O_CREAT) (fmode a),
                                Futimens fd (times a), c])))"
proof -
  let ?u = "Utimensat AT_FDCWD path (times a) (at_flags a)"
  let ?s1 = "s\<lparr>world := w, errno := ENOENT, trace := trace s @ [?u]\<rparr>"
  let ?slash = "path \<noteq> [] \<and> last path = CHR ''/''"
  have s1: "sys os ?u s = (-1, ?s1)"
    by (rule sys_Inl [OF enoent])
  have dir: "xtouch os a path s =
      (case sys os (Mkdir path (dmode a)) s2 of
         (r, s3) \<Rightarrow> if r \<noteq> 0 then (-1, s3) else sys os ?u s3)" if ?slash
    unfolding xtouch_def last_char_conv
    by (simp add: s1 that nc parents)
  have reg: "xtouch os a path s =
      (case sys os (Open path (O_WRONLY OR O_CREAT) (fmode a)) s2 of
         (fd, s3) \<Rightarrow>
           if fd < 0 then (-1, s3)
           else (case sys os (Futimens fd (times a)) s3 of
                   (r, s4) \<Rightarrow> if r \<noteq> 0 then (-1, close_quietly os fd s4)
                              else xclose os fd s4))" if "\<not> ?slash"
    unfolding xtouch_def last_char_conv
    by (simp add: s1 that nc parents)
  have d1: "xtouch os a path s = (if r \<noteq> 0 then (-1, s3) else sys os ?u s3)"
    if ?slash "sys os (Mkdir path (dmode a)) s2 = (r, s3)" for r s3
    unfolding dir [OF that(1)] that(2) by simp
  have d2: "trace (snd (xtouch os a path s)) = trace s2 @ [Mkdir path (dmode a), ?u]"
    if ?slash "syscall os (world s2) (Mkdir path (dmode a)) = (Inr 0, w3)" for w3
    unfolding dir [OF that(1)] sys_Inr [OF that(2)] by (simp add: trace_sys)
  have f1: "xtouch os a path s =
      (if fd < 0 then (-1, s3) else if r \<noteq> 0 then (-1, close_quietly os fd s4)
       else xclose os fd s4)"
    if "\<not> ?slash" "sys os (Open path (O_WRONLY OR O_CREAT) (fmode a)) s2 = (fd, s3)"
      "sys os (Futimens fd (times a)) s3 = (r, s4)" for fd s3 r s4
    unfolding reg [OF that(1)] that(2) by (simp add: that(3))
  have f2: "\<exists>c. (c = Xclose fd \<or> c = Close_quietly fd) \<and>
      trace (snd (xtouch os a path s)) =
        trace s2 @ [Open path (O_WRONLY OR O_CREAT) (fmode a), Futimens fd (times a), c]"
    if "\<not> ?slash"
      "syscall os (world s2) (Open path (O_WRONLY OR O_CREAT) (fmode a)) = (Inr fd, w3)"
      "0 \<le> fd" for fd w3
  proof -
    let ?s3 = "s2\<lparr>world := w3, trace := trace s2 @ [Open path (O_WRONLY OR O_CREAT) (fmode a)]\<rparr>"
    obtain r s4 where fu: "sys os (Futimens fd (times a)) ?s3 = (r, s4)"
      by (cases "sys os (Futimens fd (times a)) ?s3")
    have t4: "trace s4 = trace ?s3 @ [Futimens fd (times a)]"
      using trace_sys [of os "Futimens fd (times a)" ?s3] by (simp add: fu)
    have x: "xtouch os a path s =
        (if r \<noteq> 0 then (-1, close_quietly os fd s4) else xclose os fd s4)"
      unfolding reg [OF that(1)] sys_Inr [OF that(2)] using that(3) by (simp add: fu)
    show ?thesis
      by (cases "r = 0") (simp_all add: x close_quietly_def xclose_def trace_sys t4)
  qed
  show ?thesis
  proof (intro conjI impI allI, goal_cases)
    case (1 r s3)
    then show ?case by (rule d1)
  next
    case (2 w3)
    then show ?case by (rule d2)
  next
    case (3 fd s3 r s4)
    from 3(1) 3(2) [THEN conjunct1] 3(2) [THEN conjunct2] show ?case by (rule f1)
  next
    case (4 fd w3)
    from 4(1) 4(2) [THEN conjunct1] 4(2) [THEN conjunct2] show ?case by (rule f2)
  qed
qed

theorem xtouch_creates_witness:
  "trace (snd (xtouch demo_os (demo_args 0) ''d/'' (demo_proc []))) =
     [Utimensat AT_FDCWD ''d/'' (demo_time, demo_time) 0, Mkdir ''d/'' 493,
      Utimensat AT_FDCWD ''d/'' (demo_time, demo_time) 0]
   \<and> (\<exists>c. (c = Xclose 3 \<or> c = Close_quietly 3) \<and>
        trace (snd (xtouch demo_os (demo_args 0) ''f'' (demo_proc []))) =
          [Utimensat AT_FDCWD ''f'' (demo_time, demo_time) 0, Open ''f'' 65 420,
           Futimens 3 (demo_time, demo_time), c])"
  using xtouch_creates [where os = demo_os and s = "demo_proc []" and path = "''d/''"
      and a = "demo_args 0" and w = "[]"
      and ?s2.0 = "\<lparr>world = [], errno = ENOENT,
        trace = [Utimensat AT_FDCWD ''d/'' (demo_time, demo_time) 0], stderr = []\<rparr>"]
    xtouch_creates [where os = demo_os and s = "demo_proc []" and path = "''f''"
      and a = "demo_args 0" and w = "[]"
      and ?s2.0 = "\<lparr>world = [], errno = ENOENT,
        trace = [Utimensat AT_FDCWD ''f'' (demo_time, demo_time) 0], stderr = []\<rparr>"]
  by (simp add: demo_os_def demo_proc_def demo_args_def demo_syscall_def at_flags_def
      O_WRONLY_def O_CREAT_def)

text \<open>
  Claim C9. With \<open>NO_CREATE\<close> set, a path on which \<open>utimensat\<close> fails with
  \<open>ENOENT\<close> makes \<open>xtouch\<close> return 0 after that one call: nothing is created. The
  loop of \<open>main\<close> goes on to the next path with the exit status unchanged, and when
  it is the only path \<open>main\<close> returns \<open>EXIT_SUCCESS\<close>.
\<close>

theorem xtouch_no_create:
  assumes enoent:
    "syscall os (world s) (Utimensat AT_FDCWD path (times a) (at_flags a)) = (Inl ENOENT, w)"
    and nc: "flags a AND NO_CREATE \<noteq> 0"
  shows "xtouch os a path s =
           (0, s\<lparr>world := w, errno := ENOENT,
                 trace := trace s @ [Utimensat AT_FDCWD path (times a) (at_flags a)]\<rparr>)
         \<and> touch_paths os a (path # paths) ret s =
             touch_paths os a paths ret
               (s\<lparr>world := w, errno := ENOENT,
                  trace := trace s @ [Utimensat AT_FDCWD path (times a) (at_flags a)]\<rparr>)
         \<and> (main_args os gs s0 = (Inr a, s) \<longrightarrow>
              main os gs [path] s0 =
                (EXIT_SUCCESS,
                 s\<lparr>world := w, errno := ENOENT,
                    trace := trace s @ [Utimensat AT_FDCWD path (times a) (at_flags a)]\<rparr>))"
proof -
  let ?s1 = "s\<lparr>world := w, errno := ENOENT,
                trace := trace s @ [Utimensat AT_FDCWD path (times a) (at_flags a)]\<rparr>"
  have x: "xtouch os a path s = (0, ?s1)"
    using nc by (simp add: xtouch_def sys_Inl [OF enoent])
  then have t: "touch_paths os a (path # paths) ret s = touch_paths os a paths ret ?s1" for paths ret
    by simp
  have "main_args os gs s0 = (Inr a, s) \<Longrightarrow> main os gs [path] s0 = (EXIT_SUCCESS, ?s1)"
    by (simp add: main_def x)
  with x t show ?thesis by blast
qed

theorem xtouch_no_create_witness:
  "main demo_os [demo_opt CHR ''c'' []] [''missing''] (demo_proc []) =
     (EXIT_SUCCESS,
      \<lparr>world = [], errno = ENOENT,
       trace = [Umask 0, Xgettime, Utimensat AT_FDCWD ''missing'' (demo_time, demo_time) 0],
       stderr = []\<rparr>)"
  using xtouch_no_create [where os = demo_os
      and s = "\<lparr>world = [], errno = 0, trace = [Umask 0, Xgettime], stderr = []\<rparr>"
      and path = "''missing''"
      and a = "\<lparr>flags = 1, times = (demo_time, demo_time), fmode = 420, dmode = 493, pmode = 493\<rparr>"
      and w = "[]" and gs = "[demo_opt CHR ''c'' []]" and ?s0.0 = "demo_proc []"]
  by (simp add: main_args_def demo_os_def demo_proc_def demo_opt_def sys_def demo_syscall_def
      main_init_def or_flag_def set_mode_def get_times_def put_times_def NO_CREATE_def
      at_flags_def NO_FOLLOW_def)



section \<open>Properties of the traversal engine\<close>

subsection \<open>The state operations\<close>

lemma emit_simps [simp]:
  "out (emit v s) = out s @ [v]" "frontier (emit v s) = frontier s"
  "inflight (emit v s) = inflight s" "live (emit v s) = live s" "next_id (emit v s) = next_id s"
  by (simp_all add: emit_def)

lemma upd_live_simps [simp]:
  "out (upd_live i f s) = out s" "frontier (upd_live i f s) = frontier s"
  "inflight (upd_live i f s) = inflight s" "next_id (upd_live i f s) = next_id s"
  by (simp_all add: upd_live_def split: option.splits)

lemma live_upd_live:
  "live (upd_live i f s) j = (if j = i then map_option f (live s i) else live s j)"
  by (simp add: upd_live_def split: option.splits)

lemma live_entries_upd_live:
  "(\<And>c. c_entry (f c) = c_entry c) \<Longrightarrow> live_entries (upd_live i f s) = live_entries s"
  unfolding live_entries_def live_upd_live
  by (auto split: if_splits) (metis option.simps(9))+

lemma live_entries_emit [simp]: "live_entries (emit v s) = live_entries s"
  by (simp add: live_entries_def)

lemma child_added_simps [simp]:
  "out (child_added chain s) = out s" "frontier (child_added chain s) = frontier s"
  "inflight (child_added chain s) = inflight s" "next_id (child_added chain s) = next_id s"
  "live_entries (child_added chain s) = live_entries s"
  by (simp_all add: child_added_def live_entries_upd_live split: list.splits)

lemma child_completed_simps [simp]:
  "out (child_completed chain s) = out s" "frontier (child_completed chain s) = frontier s"
  "inflight (child_completed chain s) = inflight s" "next_id (child_completed chain s) = next_id s"
  "live_entries (child_completed chain s) = live_entries s"
  by (simp_all add: child_completed_def live_entries_upd_live split: list.splits)

lemma seal_simps [simp]:
  "out (seal i s) = out s" "frontier (seal i s) = frontier s"
  "inflight (seal i s) = inflight s" "next_id (seal i s) = next_id s"
  "live_entries (seal i s) = live_entries s"
  by (simp_all add: seal_def live_entries_upd_live)

lemma enqueue_simps [simp]:
  "out (enqueue e nd chain s) = out s"
  "frontier (enqueue e nd chain s) =
     frontier s @ [\<lparr>st_id = next_id s, st_entry = e, st_node = nd, st_chain = chain\<rparr>]"
  "inflight (enqueue e nd chain s) = inflight s"
  "next_id (enqueue e nd chain s) = Suc (next_id s)"
  by (simp_all add: enqueue_def)

lemma live_entries_enqueue: "live_entries (enqueue e nd chain s) \<subseteq> insert e (live_entries s)"
  by (auto simp add: live_entries_def enqueue_def split: if_splits)

subsection \<open>Reading the names of a directory\<close>

lemma out_discover [simp]: "out (discover par d chain nd s) = out s @ [first_visit par d nd]"
  by (cases nd) simp_all

lemma inflight_discover [simp]: "inflight (discover par d chain nd s) = inflight s"
  by (cases nd) simp_all

lemma frontier_discover [simp]:
  "frontier (discover par d chain nd s) = frontier s @ spawned (next_id s) par d chain [nd]"
  by (cases nd) simp_all

lemma next_id_discover [simp]:
  "next_id (discover par d chain nd s) = next_id s + length (spawned (next_id s) par d chain [nd])"
  by (cases nd) simp_all

lemma live_entries_discover:
  "live_entries (discover par d chain nd s)
     \<subseteq> live_entries s \<union> st_entry ` set (spawned (next_id s) par d chain [nd])"
proof (cases nd)
  case (File nm)
  then show ?thesis by simp
next
  case (Dir nm err kids)
  then show ?thesis
    using live_entries_enqueue
      [of "Entry par nm d" "Dir nm err kids" chain
          "child_added chain (emit (first_visit par d (Dir nm err kids)) s)"]
    by auto
qed

lemma spawned_append:
  "spawned i par d chain (xs @ ys) =
     spawned i par d chain xs @ spawned (i + length (spawned i par d chain xs)) par d chain ys"
proof (induction xs arbitrary: i)
  case Nil
  then show ?case by simp
next
  case (Cons x xs)
  then show ?case by (cases x) simp_all
qed

lemma spawned_Cons:
  "spawned i par d chain (x # xs) =
     spawned i par d chain [x] @ spawned (i + length (spawned i par d chain [x])) par d chain xs"
  using spawned_append [of i par d chain "[x]" xs] by simp

lemma out_fold_discover:
  "out (fold (discover par d chain) kids s) = out s @ map (first_visit par d) kids"
  by (induction kids arbitrary: s) simp_all

lemma inflight_fold_discover:
  "inflight (fold (discover par d chain) kids s) = inflight s"
  by (induction kids arbitrary: s) simp_all

lemma frontier_next_id_fold_discover:
  "frontier (fold (discover par d chain) kids s) = frontier s @ spawned (next_id s) par d chain kids
   \<and> next_id (fold (discover par d chain) kids s)
       = next_id s + length (spawned (next_id s) par d chain kids)"
proof (induction kids arbitrary: s)
  case Nil
  then show ?case by simp
next
  case (Cons k kids)
  show ?case
    using Cons [of "discover par d chain k s"]
    by (simp add: spawned_Cons [of _ _ _ _ k kids])
qed

lemmas frontier_fold_discover = frontier_next_id_fold_discover [THEN conjunct1]
lemmas next_id_fold_discover = frontier_next_id_fold_discover [THEN conjunct2]

lemma live_entries_fold_discover:
  "live_entries (fold (discover par d chain) kids s)
     \<subseteq> live_entries s \<union> st_entry ` set (spawned (next_id s) par d chain kids)"
proof (induction kids arbitrary: s)
  case Nil
  then show ?case by simp
next
  case (Cons k kids)
  have "live_entries (fold (discover par d chain) kids (discover par d chain k s))
      \<subseteq> live_entries (discover par d chain k s)
        \<union> st_entry ` set (spawned (next_id (discover par d chain k s)) par d chain kids)"
    by (rule Cons)
  also have "\<dots> \<subseteq> live_entries s \<union> st_entry ` set (spawned (next_id s) par d chain [k])
        \<union> st_entry ` set (spawned (next_id (discover par d chain k s)) par d chain kids)"
    using live_entries_discover [of par d chain k s] by blast
  also have "\<dots> = live_entries s \<union> st_entry ` set (spawned (next_id s) par d chain (k # kids))"
    by (simp add: spawned_Cons [of _ _ _ _ k kids] image_Un Un_assoc)
  finally show ?case by simp
qed

text \<open>What the spawned subtrees are.\<close>

lemma spawned_props:
  "q \<in> set (spawned i par d chain kids) \<Longrightarrow>
     st_chain q = chain \<and> e_depth (st_entry q) = d \<and> e_parent (st_entry q) = par
     \<and> i \<le> st_id q \<and> st_id q < i + length (spawned i par d chain kids)
     \<and> st_node q \<in> set kids
     \<and> first_visit par d (st_node q) \<in> set (map (first_visit par d) kids)
     \<and> v_entry (first_visit par d (st_node q)) = st_entry q
     \<and> (\<exists>nm err ks. st_node q = Dir nm err ks)"
proof (induction kids arbitrary: i)
  case Nil
  then show ?case by simp
next
  case (Cons k kids)
  show ?case
  proof (cases k)
    case (File nm)
    with Cons.prems have "q \<in> set (spawned i par d chain kids)" by simp
    from Cons.IH [OF this] File show ?thesis by auto
  next
    case (Dir nm err ks)
    with Cons.prems consider
      "q = \<lparr>st_id = i, st_entry = Entry par nm d, st_node = Dir nm err ks, st_chain = chain\<rparr>"
      | "q \<in> set (spawned (Suc i) par d chain kids)" by auto
    then show ?thesis
    proof cases
      case 1
      with Dir show ?thesis by simp
    next
      case 2
      from Cons.IH [OF 2] Dir show ?thesis by auto
    qed
  qed
qed


subsection \<open>The end of a subtree\<close>

lemma release_frame [simp]:
  "frontier (release post ids s) = frontier s"
  "inflight (release post ids s) = inflight s"
  "next_id (release post ids s) = next_id s"
  by (induction post ids s rule: release.induct; simp split: option.splits)+

lemma live_entries_delete: "live_entries (s\<lparr>live := (live s)(i := None)\<rparr>) \<subseteq> live_entries s"
  by (auto simp add: live_entries_def split: if_splits)

lemma release_out:
  "\<exists>ps. out (release post ids s) = out s @ ps
        \<and> (\<forall>p\<in>set ps. v_type p = Post \<and> v_entry p \<in> live_entries s)
        \<and> live_entries (release post ids s) \<subseteq> live_entries s"
proof (induction ids arbitrary: s)
  case Nil
  then show ?case by simp
next
  case (Cons i up)
  show ?case
  proof (cases "live s i")
    case None
    then show ?thesis by simp
  next
    case (Some c)
    show ?thesis
    proof (cases "c_sealed c \<and> c_pending c = 0")
      case False
      with Some show ?thesis by auto
    next
      case True
      let ?v = "\<lparr>v_entry = c_entry c, v_type = Post, v_error = None\<rparr>"
      let ?s0 = "if post then emit ?v s else s"
      let ?s1 = "child_completed up (?s0\<lparr>live := (live s)(i := None)\<rparr>)"
      have r: "release post (i # up) s = release post up ?s1"
        using Some True by simp
      have "live_entries (?s0\<lparr>live := (live s)(i := None)\<rparr>)
          = live_entries (s\<lparr>live := (live s)(i := None)\<rparr>)"
        by (simp add: live_entries_def)
      then have le: "live_entries ?s1 \<subseteq> live_entries s"
        using live_entries_delete [of s i] by simp
      have ce: "c_entry c \<in> live_entries s"
        using Some by (auto simp add: live_entries_def)
      have o1: "out ?s1 = out s @ (if post then [?v] else [])" by simp
      from Cons [of ?s1] obtain ps where
        ps: "out (release post up ?s1) = out ?s1 @ ps"
        "\<forall>p\<in>set ps. v_type p = Post \<and> v_entry p \<in> live_entries ?s1"
        "live_entries (release post up ?s1) \<subseteq> live_entries ?s1" by blast
      have "out (release post (i # up) s) = out s @ ((if post then [?v] else []) @ ps)"
        unfolding r ps(1) o1 by simp
      moreover have "\<forall>p\<in>set ((if post then [?v] else []) @ ps).
          v_type p = Post \<and> v_entry p \<in> live_entries s"
        using ps(2) le ce by auto
      moreover have "live_entries (release post (i # up) s) \<subseteq> live_entries s"
        unfolding r using ps(3) le by blast
      ultimately show ?thesis by blast
    qed
  qed
qed

subsection \<open>The visit of a waiting subtree\<close>

lemma visit_open_frame:
  "inflight (visit_open post q s) = inflight s"
  "frontier (visit_open post q s) = frontier s @ children (next_id s) q"
  "next_id (visit_open post q s) = next_id s + length (children (next_id s) q)"
  by (simp_all add: visit_open_def children_def read_dir_def inflight_fold_discover
      frontier_fold_discover next_id_fold_discover split: node.splits option.splits)

lemma visit_open_out:
  "\<exists>ps. out (visit_open post q s) = out s @ opened q @ ps
        \<and> (\<forall>p\<in>set ps. v_type p = Post
               \<and> v_entry p \<in> live_entries s \<union> st_entry ` set (children (next_id s) q))
        \<and> live_entries (visit_open post q s)
             \<subseteq> live_entries s \<union> st_entry ` set (children (next_id s) q)"
proof (cases "st_node q")
  case (File nm)
  then show ?thesis by (simp add: visit_open_def opened_def)
next
  case (Dir nm err kids)
  show ?thesis
  proof (cases err)
    case None
    let ?s1 = "seal (st_id q) (read_dir q kids s)"
    have v: "visit_open post q s = release post (st_id q # st_chain q) ?s1"
      using Dir None by (simp add: visit_open_def)
    have o1: "out ?s1 = out s @ opened q"
      using Dir None by (simp add: opened_def read_dir_def out_fold_discover)
    have l1: "live_entries ?s1 \<subseteq> live_entries s \<union> st_entry ` set (children (next_id s) q)"
      using Dir None live_entries_fold_discover
        [of "Some (st_entry q)" "Suc (e_depth (st_entry q))" "st_id q # st_chain q" kids s]
      by (simp add: children_def read_dir_def)
    from release_out [of post "st_id q # st_chain q" ?s1] obtain ps where
      ps: "out (release post (st_id q # st_chain q) ?s1) = out ?s1 @ ps"
      "\<forall>p\<in>set ps. v_type p = Post \<and> v_entry p \<in> live_entries ?s1"
      "live_entries (release post (st_id q # st_chain q) ?s1) \<subseteq> live_entries ?s1" by blast
    have "out (visit_open post q s) = out s @ opened q @ ps"
      unfolding v ps(1) o1 by simp
    moreover have "\<forall>p\<in>set ps. v_type p = Post
               \<and> v_entry p \<in> live_entries s \<union> st_entry ` set (children (next_id s) q)"
      using ps(2) l1 by blast
    moreover have "live_entries (visit_open post q s)
             \<subseteq> live_entries s \<union> st_entry ` set (children (next_id s) q)"
      unfolding v using ps(3) l1 by blast
    ultimately show ?thesis by blast
  next
    case (Some e)
    let ?s1 = "seal (st_id q) (emit \<lparr>v_entry = st_entry q, v_type = Pre, v_error = Some e\<rparr> s)"
    have v: "visit_open post q s = release post (st_id q # st_chain q) ?s1"
      using Dir Some by (simp add: visit_open_def)
    have o1: "out ?s1 = out s @ opened q"
      using Dir Some by (simp add: opened_def)
    have l1: "live_entries ?s1 = live_entries s" by simp
    from release_out [of post "st_id q # st_chain q" ?s1] obtain ps where
      ps: "out (release post (st_id q # st_chain q) ?s1) = out ?s1 @ ps"
      "\<forall>p\<in>set ps. v_type p = Post \<and> v_entry p \<in> live_entries ?s1"
      "live_entries (release post (st_id q # st_chain q) ?s1) \<subseteq> live_entries ?s1" by blast
    have "out (visit_open post q s) = out s @ opened q @ ps"
      unfolding v ps(1) o1 by simp
    moreover have "\<forall>p\<in>set ps. v_type p = Post
               \<and> v_entry p \<in> live_entries s \<union> st_entry ` set (children (next_id s) q)"
      using ps(2) l1 by blast
    moreover have "live_entries (visit_open post q s)
             \<subseteq> live_entries s \<union> st_entry ` set (children (next_id s) q)"
      unfolding v using ps(3) l1 by blast
    ultimately show ?thesis by blast
  qed
qed

subsection \<open>Steps and runs\<close>

lemma step_cases [consumes 1, case_names same visit]:
  assumes "step n post ev s = Some s'"
  obtains "queue s' = queue s" "out s' = out s" "live s' = live s" "next_id s' = next_id s"
  | q Q ps where "queue s = q # Q" "queue s' = Q @ children (next_id s) q"
      "out s' = out s @ opened q @ ps"
      "\<forall>p\<in>set ps. v_type p = Post
          \<and> v_entry p \<in> live_entries s \<union> st_entry ` set (children (next_id s) q)"
      "live_entries s' \<subseteq> live_entries s \<union> st_entry ` set (children (next_id s) q)"
      "next_id s' = next_id s + length (children (next_id s) q)"
proof (cases ev)
  case Issue
  with assms have "queue s' = queue s \<and> out s' = out s \<and> live s' = live s \<and> next_id s' = next_id s"
    by (auto simp add: queue_def split: list.splits if_splits)
  with that(1) show ?thesis by blast
next
  case (Complete i)
  with assms have "queue s' = queue s \<and> out s' = out s \<and> live s' = live s \<and> next_id s' = next_id s"
    by (auto simp add: queue_def map_update running_def list_update_same_conv [THEN iffD2]
        split: if_splits)
  with that(1) show ?thesis by blast
next
  case Visit
  with assms obtain q rest where
    i: "inflight s = (q, True) # rest" and s': "s' = visit_open post q (s\<lparr>inflight := rest\<rparr>)"
    by (auto split: list.splits if_splits)
  let ?s0 = "s\<lparr>inflight := rest\<rparr>"
  from visit_open_out [of post q ?s0] obtain ps where
    ps: "out s' = out s @ opened q @ ps"
    "\<forall>p\<in>set ps. v_type p = Post
          \<and> v_entry p \<in> live_entries s \<union> st_entry ` set (children (next_id s) q)"
    "live_entries s' \<subseteq> live_entries s \<union> st_entry ` set (children (next_id s) q)"
    unfolding s' by (auto simp add: live_entries_def)
  have "queue s = q # map fst rest @ frontier s" by (simp add: queue_def i)
  moreover have "queue s' = (map fst rest @ frontier s) @ children (next_id s) q"
    by (simp add: queue_def s' visit_open_frame)
  moreover have "next_id s' = next_id s + length (children (next_id s) q)"
    by (simp add: s' visit_open_frame)
  ultimately show ?thesis using that(2) ps by blast
qed

lemma run_invariant:
  assumes "run n post evs s0 = Some s" and "P s0"
    and "\<And>s ev s'. P s \<Longrightarrow> step n post ev s = Some s' \<Longrightarrow> P s'"
  shows "P s"
  using assms(1,2)
proof (induction evs arbitrary: s0)
  case Nil
  then show ?case by simp
next
  case (Cons ev evs)
  from Cons.prems(1) obtain s1 where
    s1: "step n post ev s0 = Some s1" and r: "run n post evs s1 = Some s"
    by (auto split: option.splits)
  from assms(3) [OF Cons.prems(2) s1] have "P s1" .
  with Cons.IH [OF r] show ?case .
qed

lemma run_append:
  "run n post (xs @ ys) s = (case run n post xs s of None \<Rightarrow> None | Some s1 \<Rightarrow> run n post ys s1)"
  by (induction xs arbitrary: s) (simp_all split: option.splits)

subsection \<open>The initial state\<close>

lemma init_simps:
  "out (init roots) = map (first_visit None 0) roots"
  "inflight (init roots) = []"
  "frontier (init roots) = spawned 0 None 0 [] roots"
  "next_id (init roots) = length (spawned 0 None 0 [] roots)"
  by (simp_all add: init_def out_fold_discover inflight_fold_discover frontier_fold_discover
      next_id_fold_discover)

lemma queue_init: "queue (init roots) = spawned 0 None 0 [] roots"
  by (simp add: queue_def init_simps)

lemma live_entries_init: "live_entries (init roots) \<subseteq> st_entry ` set (spawned 0 None 0 [] roots)"
  using live_entries_fold_discover [of None 0 "[]" roots
      "\<lparr>live = Map.empty, next_id = 0, frontier = [], inflight = [], out = []\<rparr>"]
  by (simp add: init_def live_entries_def)

subsection \<open>The cap on the open requests\<close>

lemma step_inflight:
  assumes "step n post ev s = Some s'"
  shows "(ev = Issue \<longrightarrow> length (inflight s) < open_cap n
            \<and> length (inflight s') = Suc (length (inflight s)))
       \<and> (\<forall>i. ev = Complete i \<longrightarrow> length (inflight s') = length (inflight s))
       \<and> (ev = Visit \<longrightarrow> Suc (length (inflight s')) = length (inflight s))"
  using assms
  by (cases ev) (auto simp add: visit_open_frame split: list.splits if_splits)

lemma inflight_capped:
  assumes "run n post evs (init roots) = Some s"
  shows "length (inflight s) \<le> open_cap n"
proof (rule run_invariant [OF assms])
  show "length (inflight (init roots)) \<le> open_cap n" by (simp add: init_simps)
next
  fix s ev s'
  assume "length (inflight s) \<le> open_cap n" "step n post ev s = Some s'"
  then show "length (inflight s') \<le> open_cap n"
    using step_inflight [of n post ev s s'] by (cases ev) auto
qed

subsection \<open>What is visited and what is owed\<close>

lemma nonpost_append [simp]: "nonpost (xs @ ys) = nonpost xs @ nonpost ys"
  by (simp add: nonpost_def)

lemma nonpost_first_visits [simp]: "nonpost (map (first_visit par d) kids) = map (first_visit par d) kids"
proof -
  have "v_type (first_visit par d k) \<noteq> Post" for k by (cases k) simp_all
  then show ?thesis by (simp add: nonpost_def)
qed

lemma nonpost_opened [simp]: "nonpost (opened q) = opened q"
  by (simp add: opened_def split: node.splits option.splits) (simp add: nonpost_def)

lemma nonpost_posts: "\<forall>p\<in>set ps. v_type p = Post \<Longrightarrow> nonpost ps = []"
  by (simp add: nonpost_def)

lemma owed_spawned:
  "mset (concat (map (expected par d) kids)) =
     mset (map (first_visit par d) kids) + mset (concat (map owed (spawned i par d chain kids)))"
proof (induction kids arbitrary: i)
  case Nil
  then show ?case by simp
next
  case (Cons k kids)
  show ?case
  proof (cases k)
    case (File nm)
    with Cons [of i] show ?thesis by simp
  next
    case (Dir nm err ks)
    with Cons [of "Suc i"] show ?thesis
      by (simp add: owed_def split: option.splits)
  qed
qed

lemma owed_split: "mset (owed q) = mset (opened q) + mset (concat (map owed (children i q)))"
proof (cases "st_node q")
  case (File nm)
  then show ?thesis by (simp add: owed_def opened_def children_def)
next
  case (Dir nm err kids)
  show ?thesis
  proof (cases err)
    case None
    with Dir show ?thesis
      using owed_spawned [of "Some (st_entry q)" "Suc (e_depth (st_entry q))" kids i
          "st_id q # st_chain q"]
      by (simp add: owed_def opened_def children_def)
  next
    case (Some e)
    with Dir show ?thesis by (simp add: owed_def opened_def children_def)
  qed
qed

lemma children_entries_opened: "st_entry ` set (children i q) \<subseteq> v_entry ` set (opened q)"
proof
  fix e
  assume "e \<in> st_entry ` set (children i q)"
  then obtain c where c: "c \<in> set (children i q)" "e = st_entry c" by blast
  have "\<exists>nm kids. st_node q = Dir nm None kids"
  proof (cases "st_node q")
    case (File nm)
    with c(1) show ?thesis by (simp add: children_def)
  next
    case (Dir nm err kids)
    with c(1) show ?thesis by (cases err) (simp_all add: children_def)
  qed
  then obtain nm kids where nd: "st_node q = Dir nm None kids" by blast
  let ?par = "Some (st_entry q)" and ?d = "Suc (e_depth (st_entry q))"
  from c nd have "c \<in> set (spawned i ?par ?d (st_id q # st_chain q) kids)"
    by (simp add: children_def)
  from spawned_props [OF this]
  have "first_visit ?par ?d (st_node c) \<in> set (map (first_visit ?par ?d) kids)"
    "v_entry (first_visit ?par ?d (st_node c)) = st_entry c" by simp_all
  then have "st_entry c \<in> v_entry ` set (map (first_visit ?par ?d) kids)"
    by (metis imageI)
  with nd c(2) show "e \<in> v_entry ` set (opened q)"
    by (simp add: opened_def del: set_map)
qed

lemma accounted_init: "accounted roots (init roots)"
proof -
  have 1: "mset (nonpost (out (init roots))) + mset (concat (map owed (queue (init roots))))
      = mset (total roots)"
    using owed_spawned [of None 0 roots 0 "[]"] by (simp add: init_simps queue_init total_def)
  have sp: "st_entry ` set (spawned 0 None 0 [] roots) \<subseteq> v_entry ` set (map (first_visit None 0) roots)"
  proof
    fix e
    assume "e \<in> st_entry ` set (spawned 0 None 0 [] roots)"
    then obtain c where c: "c \<in> set (spawned 0 None 0 [] roots)" "e = st_entry c" by blast
    from spawned_props [OF c(1)] c(2)
    show "e \<in> v_entry ` set (map (first_visit None 0) roots)"
      by (metis imageI)
  qed
  have 2: "held (init roots) \<subseteq> v_entry ` set (nonpost (out (init roots)))"
    using sp live_entries_init [of roots] by (auto simp add: held_def queue_init init_simps)
  have 3: "v_entry ` set (out (init roots)) \<subseteq> v_entry ` set (nonpost (out (init roots)))"
    by (simp add: init_simps)
  from 1 2 3 show ?thesis by (simp add: accounted_def)
qed

lemma accounted_step:
  assumes a: "accounted roots s" and st: "step n post ev s = Some s'"
  shows "accounted roots s'"
  using st
proof (cases rule: step_cases)
  case same
  with a show ?thesis by (simp add: accounted_def held_def live_entries_def)
next
  case (visit q Q ps)
  let ?ch = "children (next_id s) q"
  from a have a1: "mset (nonpost (out s)) + mset (concat (map owed (queue s))) = mset (total roots)"
    and a2: "held s \<subseteq> v_entry ` set (nonpost (out s))"
    and a3: "v_entry ` set (out s) \<subseteq> v_entry ` set (nonpost (out s))"
    by (simp_all add: accounted_def)
  have np: "nonpost (out s') = nonpost (out s) @ opened q"
    using visit(4) by (simp add: visit(3) nonpost_posts)
  have 1: "mset (nonpost (out s')) + mset (concat (map owed (queue s'))) = mset (total roots)"
  proof -
    define A where "A = mset (nonpost (out s))"
    define B where "B = mset (opened q)"
    define C where "C = mset (concat (map owed ?ch))"
    define D where "D = mset (concat (map owed Q))"
    have "mset (concat (map owed (queue s))) = (B + C) + D"
      using owed_split [of q "next_id s"] by (simp add: visit(1) B_def C_def D_def)
    with a1 have "A + ((B + C) + D) = mset (total roots)" by (simp add: A_def)
    moreover have "mset (nonpost (out s')) = A + B" by (simp add: np A_def B_def)
    moreover have "mset (concat (map owed (queue s'))) = D + C" by (simp add: visit(2) C_def D_def)
    ultimately show ?thesis by (simp add: ac_simps)
  qed
  define V where "V = v_entry ` set (nonpost (out s))"
  define V' where "V' = v_entry ` set (nonpost (out s'))"
  define CH where "CH = st_entry ` set ?ch"
  define OP where "OP = v_entry ` set (opened q)"
  have V': "V' = V \<union> OP" by (simp add: V'_def V_def OP_def np image_Un)
  have ch: "CH \<subseteq> OP"
    unfolding CH_def OP_def by (rule children_entries_opened)
  have h': "held s' \<subseteq> held s \<union> CH"
    using visit(5) by (auto simp add: held_def visit(1,2) CH_def)
  have h: "held s \<subseteq> V" using a2 by (simp add: V_def)
  from h' h ch have two: "held s' \<subseteq> V'" unfolding V' by blast
  define PS where "PS = v_entry ` set ps"
  define OS where "OS = v_entry ` set (out s)"
  define OS' where "OS' = v_entry ` set (out s')"
  have "PS \<subseteq> held s \<union> CH"
    using visit(4) by (auto simp add: held_def CH_def PS_def)
  with h ch have ps: "PS \<subseteq> V'" unfolding V' by blast
  have o: "OS \<subseteq> V" using a3 by (simp add: V_def OS_def)
  have "OS' = OS \<union> OP \<union> PS"
    by (simp add: visit(3) image_Un OP_def OS_def OS'_def PS_def Un_assoc)
  with o ps have "OS' \<subseteq> V'" unfolding V' by blast
  then have three: "v_entry ` set (out s') \<subseteq> V'" by (simp add: OS'_def)
  from two three have 2: "held s' \<subseteq> v_entry ` set (nonpost (out s'))"
    and 3: "v_entry ` set (out s') \<subseteq> v_entry ` set (nonpost (out s'))"
    by (simp_all add: V'_def)
  from 1 2 3 show ?thesis by (simp add: accounted_def)
qed

lemma accounted_run:
  assumes "run n post evs (init roots) = Some s"
  shows "accounted roots s"
proof (rule run_invariant [where P = "accounted roots", OF assms])
  show "accounted roots (init roots)" by (rule accounted_init)
qed (rule accounted_step)



subsection \<open>Every schedule ends\<close>








subsection \<open>The depth invariant\<close>

lemma depth_ok_expected:
  assumes "case par of None \<Rightarrow> d = 0 | Some p \<Rightarrow> d = Suc (e_depth p) \<and> depth_ok p"
  shows "\<forall>v\<in>set (expected par d nd). depth_ok (v_entry v)"
  using assms
proof (induction par d nd rule: expected.induct)
  case (1 par d nm)
  then show ?case by (cases par) simp_all
next
  case (2 par d nm err kids)
  have e: "depth_ok (Entry par nm d)" using "2.prems" by (cases par) simp_all
  show ?case
  proof (cases err)
    case None
    have "\<forall>v\<in>set (expected (Some (Entry par nm d)) (Suc d) k). depth_ok (v_entry v)"
      if "k \<in> set kids" for k
      using "2.IH" [OF None that] e by simp
    with e None show ?thesis by auto
  next
    case (Some a)
    with e show ?thesis by simp
  qed
qed

lemma depth_ok_total: "\<forall>v\<in>set (total roots). depth_ok (v_entry v)"
  using depth_ok_expected [where par = None and d = 0] by (auto simp add: total_def)

lemma depth_ok_cases:
  "depth_ok e \<Longrightarrow>
     (e_parent e = None \<longrightarrow> e_depth e = 0)
     \<and> (\<forall>p. e_parent e = Some p \<longrightarrow> e_depth e = e_depth p + 1 \<and> depth_ok p)"
  by (cases e; cases "e_parent e") auto

lemma visited_in_total:
  assumes "run n post evs (init roots) = Some s"
  shows "v_entry ` set (out s) \<subseteq> v_entry ` set (total roots)"
proof -
  from accounted_run [OF assms]
  have 1: "mset (nonpost (out s)) + mset (concat (map owed (queue s))) = mset (total roots)"
    and 3: "v_entry ` set (out s) \<subseteq> v_entry ` set (nonpost (out s))"
    by (simp_all add: accounted_def)
  from 1 have "mset (nonpost (out s)) \<subseteq># mset (total roots)"
    by (metis mset_subset_eq_add_left)
  then have "set (nonpost (out s)) \<subseteq> set (total roots)"
    by (metis set_mset_mono set_mset_mset)
  then have "v_entry ` set (nonpost (out s)) \<subseteq> v_entry ` set (total roots)"
    by (rule image_mono)
  with 3 show ?thesis by (rule subset_trans)
qed







lemma firsts_append [simp]: "firsts (xs @ ys) = firsts xs @ firsts ys"
  by (simp add: firsts_def)








subsection \<open>The growth of the output\<close>

lemma out_grows:
  assumes "run n post evs s0 = Some s"
  shows "\<exists>ws. out s = out s0 @ ws"
proof (rule run_invariant [where P = "\<lambda>s. \<exists>ws. out s = out s0 @ ws", OF assms])
  show "\<exists>ws. out s0 = out s0 @ ws" by simp
next
  fix s ev s'
  assume p: "\<exists>ws. out s = out s0 @ ws" and st: "step n post ev s = Some s'"
  from p obtain ws where ws: "out s = out s0 @ ws" ..
  from st show "\<exists>ws. out s' = out s0 @ ws"
  proof (cases rule: step_cases)
    case same
    with ws show ?thesis by simp
  next
    case (visit q Q ps)
    with ws show ?thesis by simp
  qed
qed


subsection \<open>The claims about the order and the set of the visits\<close>

lemmas engine_eval =
  bftw_def init_def emit_def enqueue_def child_added_def upd_live_def
  visitable_def open_cap_def running_def visit_open_def read_dir_def seal_def
  child_completed_def final_def



text \<open>
  Claim C3. In every state that the engine reaches with \<open>n\<close> workers there are at
  most \<open>2 * n + 1\<close> open requests in flight. When there are that many the engine
  issues no request: each event that can happen is the completion of a request by a
  worker, which leaves their number, or the draining of a completion, which takes one
  away.
\<close>

theorem open_requests_capped:
  assumes "bftw n post roots evs = Some s"
  shows "length (inflight s) \<le> 2 * n + 1
       \<and> (length (inflight s) = 2 * n + 1 \<longrightarrow>
            step n post Issue s = None
            \<and> (\<forall>ev s'. step n post ev s = Some s' \<longrightarrow>
                  (\<exists>i. ev = Complete i \<and> length (inflight s') = length (inflight s))
                  \<or> (ev = Visit \<and> Suc (length (inflight s')) = length (inflight s))))"
proof -
  from assms have c: "length (inflight s) \<le> 2 * n + 1"
    unfolding bftw_def using inflight_capped [of n post evs roots s] by (simp add: open_cap_def)
  have "step n post Issue s = None" if "length (inflight s) = 2 * n + 1"
    using that by (simp add: open_cap_def split: list.splits)
  moreover have "(\<exists>i. ev = Complete i \<and> length (inflight s') = length (inflight s))
                  \<or> (ev = Visit \<and> Suc (length (inflight s')) = length (inflight s))"
    if "length (inflight s) = 2 * n + 1" "step n post ev s = Some s'" for ev s'
    using step_inflight [OF that(2)] that(1) by (cases ev) (auto simp add: open_cap_def)
  ultimately show ?thesis using c by blast
qed

theorem open_requests_capped_witness:
  "length (inflight (the (bftw 1 False [wide_tree]
       [Issue, Complete 0, Visit, Issue, Issue, Issue]))) = 2 * 1 + 1
   \<and> step 1 False Issue (the (bftw 1 False [wide_tree]
       [Issue, Complete 0, Visit, Issue, Issue, Issue])) = None
   \<and> bftw 1 False [wide_tree] [Issue, Complete 0, Visit, Issue, Issue, Issue, Issue] = None"
  using open_requests_capped [where n = 1 and post = False and roots = "[wide_tree]"
      and evs = "[Issue, Complete 0, Visit, Issue, Issue, Issue]"
      and s = "the (bftw 1 False [wide_tree] [Issue, Complete 0, Visit, Issue, Issue, Issue])"]
  by (simp add: engine_eval wide_tree_def)

text \<open>
  Claim C4. The output of the traversal starts with the visits of the roots, each
  with depth 0 and no parent. Every entry that the traversal hands to the callback
  satisfies the depth invariant, and so do its ancestors: an entry without parent (a
  root) has depth 0, and the depth of any other entry is the depth of its parent plus
  one.
\<close>

theorem depth_invariant:
  assumes "bftw n post roots evs = Some s"
  shows "(\<exists>ws. out s = map (first_visit None 0) roots @ ws)
       \<and> (\<forall>v\<in>set (out s). depth_ok (v_entry v)
            \<and> (e_parent (v_entry v) = None \<longrightarrow> e_depth (v_entry v) = 0)
            \<and> (\<forall>p. e_parent (v_entry v) = Some p \<longrightarrow> e_depth (v_entry v) = e_depth p + 1))"
proof -
  from assms have "\<exists>ws. out s = out (init roots) @ ws" unfolding bftw_def by (rule out_grows)
  then have 1: "\<exists>ws. out s = map (first_visit None 0) roots @ ws" by (simp add: init_simps)
  from assms(1) have sub: "v_entry ` set (out s) \<subseteq> v_entry ` set (total roots)"
    unfolding bftw_def by (rule visited_in_total)
  have "depth_ok (v_entry v)
            \<and> (e_parent (v_entry v) = None \<longrightarrow> e_depth (v_entry v) = 0)
            \<and> (\<forall>p. e_parent (v_entry v) = Some p \<longrightarrow> e_depth (v_entry v) = e_depth p + 1)"
    if "v \<in> set (out s)" for v
  proof -
    from sub that obtain t where "t \<in> set (total roots)" "v_entry t = v_entry v" by force
    with depth_ok_total [of roots] have "depth_ok (v_entry v)" by auto
    with depth_ok_cases [of "v_entry v"] show ?thesis by blast
  qed
  with 1 show ?thesis by blast
qed

theorem depth_invariant_witness:
  "map (\<lambda>v. (e_name (v_entry v), e_depth (v_entry v), map_option e_name (e_parent (v_entry v))))
     (out (the (bftw 1 False [demo_tree] [Issue, Complete 0, Visit]))) =
     [(''r'', 0, None), (''a'', 1, Some ''r''), (''b'', 1, Some ''r'')]
   \<and> map (\<lambda>v. depth_ok (v_entry v))
       (out (the (bftw 1 False [demo_tree] [Issue, Complete 0, Visit]))) = [True, True, True]"
  using depth_invariant [where n = 1 and post = False and roots = "[demo_tree]"
      and evs = "[Issue, Complete 0, Visit]"
      and s = "the (bftw 1 False [demo_tree] [Issue, Complete 0, Visit])"]
  by (simp add: engine_eval demo_tree_def)



subsection \<open>The store of the counters\<close>


















subsection \<open>The retry of an open request\<close>







subsection \<open>The claims about failed open requests\<close>





subsection \<open>The claim about the I/O queue\<close>










end
